theory Spec2Isabelle
  imports Main "HOL-Library.Sublist"
begin

section \<open>Observables\<close>

text \<open>
  The streams of \<^verbatim>\<open>collection.ts\<close> are RxJS observables. An observable is modelled by
  what one subscription to it has delivered: the values emitted so far, in order, and how
  the stream ended (not yet, by completion, or by an error). An error is a value of the
  model, never an exception of HOL.
\<close>

datatype error = StoreTransportError string | MalformedNotificationError

datatype ending = Pending | Completed | Failed error

datatype 'a observable = Observable (emissions: "'a list") (ending: ending)

text \<open>RxJS \<^verbatim>\<open>map(f)\<close>: every value is replaced by its image; the ending is passed on.\<close>

definition map_op :: "('a \<Rightarrow> 'b) \<Rightarrow> 'a observable \<Rightarrow> 'b observable" where
  "map_op f obs = Observable (map f (emissions obs)) (ending obs)"

text \<open>RxJS \<^verbatim>\<open>filter(p)\<close>: a value is emitted iff the predicate holds of it.\<close>

definition filter_op :: "('a \<Rightarrow> bool) \<Rightarrow> 'a observable \<Rightarrow> 'a observable" where
  "filter_op p obs = Observable (filter p (emissions obs)) (ending obs)"

text \<open>
  RxJS \<^verbatim>\<open>scan(f, seed)\<close>: the accumulator starts at the seed; each incoming value is
  folded into it and the new accumulator is emitted, once per incoming value.
\<close>

fun scan_values :: "('b \<Rightarrow> 'a \<Rightarrow> 'b) \<Rightarrow> 'b \<Rightarrow> 'a list \<Rightarrow> 'b list" where
  "scan_values f acc [] = []"
| "scan_values f acc (x # xs) = f acc x # scan_values f (f acc x) xs"

definition scan_op :: "('b \<Rightarrow> 'a \<Rightarrow> 'b) \<Rightarrow> 'b \<Rightarrow> 'a observable \<Rightarrow> 'b observable" where
  "scan_op f seed obs = Observable (scan_values f seed (emissions obs)) (ending obs)"

section \<open>The store's data\<close>

datatype DocumentChangeType = added | removed | modified

text \<open>
  A \<^verbatim>\<open>DocumentChange\<close> of the store: the kind of change, the document, and its position
  before and after (\<open>-1\<close> where there is none).
\<close>

record 'd DocumentChange =
  change_type :: DocumentChangeType
  doc :: 'd
  oldIndex :: int
  newIndex :: int

text \<open>
  An action of the library is \<^verbatim>\<open>{ type, payload }\<close>. A \<^verbatim>\<open>DocumentChangeAction\<close> is tagged
  with the kind of change and carries the store's change record. The tag of the action that
  wraps a whole snapshot is never read by \<^verbatim>\<open>collection.ts\<close>; it is left as \<open>unit\<close>.
\<close>

record ('t, 'p) Action =
  type :: 't
  payload :: 'p

type_synonym 'd DocumentChangeAction = "(DocumentChangeType, 'd DocumentChange) Action"

text \<open>
  One notification of the live-query listener (a \<^verbatim>\<open>QuerySnapshot\<close>): the full current
  match list \<^verbatim>\<open>docs\<close> and the change metadata \<^verbatim>\<open>docChanges()\<close>.
\<close>

record 'd QuerySnapshot =
  docs :: "'d list"
  changes :: "'d DocumentChange list"

text \<open>
  A query is modelled by the stream of snapshots its listener delivers to one subscription.
\<close>

type_synonym 'd Query = "'d QuerySnapshot observable"

section \<open>Collaborators of \<^verbatim>\<open>collection.ts\<close>\<close>

text \<open>
  Modelled from the spec: \<^verbatim>\<open>afs.keepUnstableUntilFirst\<close> (the stability coordinator
  adapter, defined in \<^verbatim>\<open>../firestore\<close>) is missing. The spec (4.4) makes it a wrapper that
  holds the framework's stabilisation open until a first value or error has passed and
  reschedules emissions; every value and the ending pass through it unchanged.
\<close>

definition keepUnstableUntilFirst :: "'a observable \<Rightarrow> 'a observable" where
  "keepUnstableUntilFirst obs = obs"

text \<open>
  Modelled from the spec: \<^verbatim>\<open>docChanges\<close> (the change diff emitter, defined in
  \<^verbatim>\<open>./changes\<close>) is missing. The spec (4.1) makes it a pure mapping of each notification's
  change metadata into change records, one batch per notification.
\<close>

definition toAction :: "'d DocumentChange \<Rightarrow> 'd DocumentChangeAction" where
  "toAction c = \<lparr> type = change_type c, payload = c \<rparr>"

definition docChanges :: "'d Query \<Rightarrow> 'd DocumentChangeAction list observable" where
  "docChanges query = map_op (\<lambda>snap. map toAction (changes snap)) query"

section \<open>\<^verbatim>\<open>collection.ts\<close>\<close>

text \<open>
  JavaScript's \<^verbatim>\<open>Array.prototype.indexOf\<close>: the index of the first element equal to the
  argument, \<open>-1\<close> when there is none.
\<close>

fun indexOf :: "'a list \<Rightarrow> 'a \<Rightarrow> int" where
  "indexOf [] x = -1"
| "indexOf (y # ys) x =
     (if y = x then 0 else (if indexOf ys x = -1 then -1 else indexOf ys x + 1))"

text \<open>
  The optional parameter \<^verbatim>\<open>events?: DocumentChangeType[]\<close> is an option: \<open>None\<close> is an
  absent (undefined) argument. \<^verbatim>\<open>!events\<close> holds of \<open>None\<close> only, an array being truthy
  even when empty.
\<close>

definition validateEventsArray :: "DocumentChangeType list option \<Rightarrow> DocumentChangeType list" where
  "validateEventsArray events =
     (case events of
        None \<Rightarrow> [added, removed, modified]
      | Some evs \<Rightarrow> if length evs = 0 then [added, removed, modified] else evs)"

definition stateChanges ::
  "DocumentChangeType list option \<Rightarrow> 'd Query \<Rightarrow> 'd DocumentChangeAction list observable" where
  "stateChanges events query =
     (case events of
        None \<Rightarrow> keepUnstableUntilFirst (docChanges query)
      | Some evs \<Rightarrow>
          if length evs = 0 then keepUnstableUntilFirst (docChanges query)
          else keepUnstableUntilFirst
                 (filter_op (\<lambda>changes. length changes > 0)
                    (map_op (\<lambda>actions. filter (\<lambda>change. indexOf evs (type change) > -1) actions)
                       (docChanges query))))"

definition auditTrail ::
  "DocumentChangeType list option \<Rightarrow> 'd Query \<Rightarrow> 'd DocumentChangeAction list observable" where
  "auditTrail events query =
     scan_op (\<lambda>current action. current @ action) [] (stateChanges events query)"

subsection \<open>The ordered snapshot\<close>

text \<open>
  Modelled from the spec: \<^verbatim>\<open>sortedChanges\<close> (the ordered state reconstructor, defined in
  \<^verbatim>\<open>./changes\<close>) is missing. The spec (4.2) seeds it with the empty sequence and has it
  apply, in the order delivered, the changes of each batch that pass the event-type filter:
  Removed at \<^verbatim>\<open>oldIndex\<close> deletes that slot, Added at \<^verbatim>\<open>newIndex\<close> inserts at that slot,
  Modified removes from \<^verbatim>\<open>oldIndex\<close> and re-inserts at \<^verbatim>\<open>newIndex\<close>, which is a
  replacement in place when the two are equal. After each batch the whole sequence is
  emitted as change records. A change whose index does not fit the current sequence
  is a \<^verbatim>\<open>MalformedNotificationError\<close>, fatal to the subscription (spec, 7).
\<close>

text \<open>Modelled from the spec: "deletes that slot" and "inserts at that slot" (4.2).\<close>

definition deleteSlot :: "nat \<Rightarrow> 'a list \<Rightarrow> 'a list" where
  "deleteSlot i xs = take i xs @ drop (Suc i) xs"

definition insertSlot :: "nat \<Rightarrow> 'a \<Rightarrow> 'a list \<Rightarrow> 'a list" where
  "insertSlot i x xs = take i xs @ x # drop i xs"

text \<open>
  Modelled from the spec: one change applied to the current sequence (4.2), with the
  defensive check of section 7 on its indices.
\<close>

definition combineChange ::
  "'d DocumentChange list \<Rightarrow> 'd DocumentChange \<Rightarrow> error + 'd DocumentChange list" where
  "combineChange combined change =
     (case change_type change of
        added \<Rightarrow>
          if 0 \<le> newIndex change \<and> newIndex change \<le> int (length combined)
          then Inr (insertSlot (nat (newIndex change)) change combined)
          else Inl MalformedNotificationError
      | removed \<Rightarrow>
          if 0 \<le> oldIndex change \<and> oldIndex change < int (length combined)
          then Inr (deleteSlot (nat (oldIndex change)) combined)
          else Inl MalformedNotificationError
      | modified \<Rightarrow>
          if 0 \<le> oldIndex change \<and> oldIndex change < int (length combined)
             \<and> 0 \<le> newIndex change \<and> newIndex change < int (length combined)
          then (if oldIndex change \<noteq> newIndex change
                then Inr (insertSlot (nat (newIndex change)) change
                            (deleteSlot (nat (oldIndex change)) combined))
                else Inr (combined[nat (newIndex change) := change]))
          else Inl MalformedNotificationError)"

text \<open>
  Modelled from the spec: the changes of a batch are applied in the order delivered; the
  batch is the one "already filtered to requested event types" (4.2), so a change whose
  type is not requested is passed over.
\<close>

fun combineChanges ::
  "'d DocumentChange list \<Rightarrow> 'd DocumentChange list \<Rightarrow> DocumentChangeType list
     \<Rightarrow> error + 'd DocumentChange list" where
  "combineChanges current [] events = Inr current"
| "combineChanges current (change # rest) events =
     (if indexOf events (change_type change) > -1
      then (case combineChange current change of
              Inl e \<Rightarrow> Inl e
            | Inr current' \<Rightarrow> combineChanges current' rest events)
      else combineChanges current rest events)"

text \<open>
  Modelled from the spec: the scan over the notifications (4.2). Each batch yields one
  emission, the whole current sequence; a malformed batch emits nothing and ends the
  stream with the error (7).
\<close>

fun scanChanges ::
  "DocumentChangeType list \<Rightarrow> 'd DocumentChange list \<Rightarrow> 'd QuerySnapshot list \<Rightarrow> ending
     \<Rightarrow> 'd DocumentChangeAction list observable" where
  "scanChanges events current [] e = Observable [] e"
| "scanChanges events current (snap # snaps) e =
     (case combineChanges current (changes snap) events of
        Inl err \<Rightarrow> Observable [] (Failed err)
      | Inr current' \<Rightarrow>
          Observable (map toAction current' # emissions (scanChanges events current' snaps e))
                     (ending (scanChanges events current' snaps e)))"

text \<open>
  Modelled from the spec: \<^verbatim>\<open>sortedChanges\<close> itself, the scan started from the empty
  sequence on the query's notifications.
\<close>

definition sortedChanges ::
  "'d Query \<Rightarrow> DocumentChangeType list \<Rightarrow> 'd DocumentChangeAction list observable" where
  "sortedChanges query events = scanChanges events [] (emissions query) (ending query)"

text \<open>\<^verbatim>\<open>snapshotChanges\<close>, lines 90 to 96 of \<^verbatim>\<open>collection.ts\<close>.\<close>

definition snapshotChanges ::
  "DocumentChangeType list option \<Rightarrow> 'd Query \<Rightarrow> 'd DocumentChangeAction list observable" where
  "snapshotChanges events query =
     (let validatedEvents = validateEventsArray events;
          scheduledSortedChanges = sortedChanges query validatedEvents
      in keepUnstableUntilFirst scheduledSortedChanges)"

text \<open>The documents of an emitted batch, in its order.\<close>

definition documents :: "'d DocumentChangeAction list \<Rightarrow> 'd list" where
  "documents batch = map (\<lambda>a. doc (payload a)) batch"

subsection \<open>The value view\<close>

text \<open>
  A document of the store has an identifier and its data, an object: a finite map from
  field names to values.
\<close>

datatype jsvalue = JString string | JNumber int | JBool bool | JNull

record QueryDocumentSnapshot =
  doc_id :: string
  data :: "string \<rightharpoonup> jsvalue"

text \<open>
  The parameter \<^verbatim>\<open>options: {idField?: K} = {}\<close>. The test \<^verbatim>\<open>if (options.idField)\<close> is
  JavaScript truthiness: it fails when the field is absent and when it is the empty string.
\<close>

record Options =
  idField :: "string option"

definition noOptions :: Options where
  "noOptions = \<lparr> idField = None \<rparr>"

definition truthy :: "string option \<Rightarrow> bool" where
  "truthy s = (case s of None \<Rightarrow> False | Some str \<Rightarrow> str \<noteq> [])"

text \<open>
  Modelled from the spec: \<^verbatim>\<open>fromCollectionRef\<close> (defined in \<^verbatim>\<open>../observable/fromRef\<close>) is
  missing. It turns the store's listener into a stream with one action per notification,
  whose payload is the notification's snapshot.
\<close>

definition fromCollectionRef :: "'d Query \<Rightarrow> (unit, 'd QuerySnapshot) Action observable" where
  "fromCollectionRef query = map_op (\<lambda>snap. \<lparr> type = (), payload = snap \<rparr>) query"

text \<open>
  The object spread \<^verbatim>\<open>{ ...a.data(), ...{ [options.idField]: a.id } }\<close> copies the data's
  fields and then sets the field named by \<^verbatim>\<open>idField\<close>, overwriting a field of that name.
\<close>

definition valueChanges ::
  "Options \<Rightarrow> QueryDocumentSnapshot Query \<Rightarrow> (string \<rightharpoonup> jsvalue) list observable" where
  "valueChanges options query =
     keepUnstableUntilFirst
       (map_op (\<lambda>actions. map (\<lambda>a.
            if truthy (idField options)
            then data a ++ [the (idField options) \<mapsto> JString (doc_id a)]
            else data a) (docs (payload actions)))
          (fromCollectionRef query))"

subsection \<open>The one-shot read\<close>

text \<open>
  \<^verbatim>\<open>query.get(options)\<close> is the store's: a promise that resolves with the result, rejects
  with the store's error, or has not settled yet. RxJS \<^verbatim>\<open>from\<close> turns a promise into a
  stream: the value and then completion when it resolves, the error alone when it rejects.
  \<^verbatim>\<open>observeOn\<close> delivers the same notifications on another scheduler.
\<close>

datatype 'a promise = Resolved 'a | Rejected error | Unsettled

definition from_promise :: "'a promise \<Rightarrow> 'a observable" where
  "from_promise p =
     (case p of
        Resolved v \<Rightarrow> Observable [v] Completed
      | Rejected e \<Rightarrow> Observable [] (Failed e)
      | Unsettled \<Rightarrow> Observable [] Pending)"

definition observeOn :: "'a observable \<Rightarrow> 'a observable" where
  "observeOn obs = obs"

definition get :: "('o \<Rightarrow> 'r promise) \<Rightarrow> 'o \<Rightarrow> 'r observable" where
  "get query_get options = observeOn (from_promise (query_get options))"

section \<open>The store's contract\<close>

text \<open>
  Modelled from the spec: what the store declares by a change record (4.1), stated by
  positions, with no reference to how a list is edited. \<open>skip i k\<close> is the \<open>k\<close>-th position when position
  \<open>i\<close> is left out. An Added record puts its document at \<^verbatim>\<open>newIndex\<close> of the new match list
  and keeps all others in their order; a Removed record leaves out the document that was at
  \<^verbatim>\<open>oldIndex\<close>; a Modified record has its document at \<^verbatim>\<open>oldIndex\<close> before and at
  \<^verbatim>\<open>newIndex\<close> after, the others keeping their order.
\<close>

definition skip :: "nat \<Rightarrow> nat \<Rightarrow> nat" where
  "skip i k = (if k < i then k else Suc k)"

definition store_change :: "'d list \<Rightarrow> 'd DocumentChange \<Rightarrow> 'd list \<Rightarrow> bool" where
  "store_change before c after =
     (case change_type c of
        added \<Rightarrow>
          0 \<le> newIndex c \<and> nat (newIndex c) \<le> length before
          \<and> length after = Suc (length before)
          \<and> after ! nat (newIndex c) = doc c
          \<and> (\<forall>k \<in> set [0..<length before]. after ! skip (nat (newIndex c)) k = before ! k)
      | removed \<Rightarrow>
          0 \<le> oldIndex c \<and> nat (oldIndex c) < length before
          \<and> Suc (length after) = length before
          \<and> (\<forall>k \<in> set [0..<length after]. after ! k = before ! skip (nat (oldIndex c)) k)
      | modified \<Rightarrow>
          0 \<le> oldIndex c \<and> nat (oldIndex c) < length before
          \<and> 0 \<le> newIndex c \<and> nat (newIndex c) < length before
          \<and> length after = length before
          \<and> after ! nat (newIndex c) = doc c
          \<and> (\<forall>k \<in> set [0..<length before - 1].
                after ! skip (nat (newIndex c)) k = before ! skip (nat (oldIndex c)) k))"

text \<open>
  Modelled from the spec: the changes of one notification are declared in sequence (4.2, 9), each against the list the
  previous one left; a run of notifications is consistent when every notification's changes
  lead from the previous match list to its own, starting from the empty one.
\<close>

inductive store_batch :: "'d list \<Rightarrow> 'd DocumentChange list \<Rightarrow> 'd list \<Rightarrow> bool" where
  batch_done: "store_batch xs [] xs"
| batch_step: "store_change xs c ys \<Longrightarrow> store_batch ys cs zs \<Longrightarrow> store_batch xs (c # cs) zs"

fun store_run :: "'d list \<Rightarrow> 'd QuerySnapshot list \<Rightarrow> bool" where
  "store_run previous [] = True"
| "store_run previous (snap # snaps) =
     (store_batch previous (changes snap) (docs snap) \<and> store_run (docs snap) snaps)"

section \<open>Sample data\<close>

text \<open>Constructors for concrete change records and notifications.\<close>

definition change :: "DocumentChangeType \<Rightarrow> 'd \<Rightarrow> int \<Rightarrow> int \<Rightarrow> 'd DocumentChange" where
  "change t d old new = \<lparr> change_type = t, doc = d, oldIndex = old, newIndex = new \<rparr>"

definition snapshot :: "'d list \<Rightarrow> 'd DocumentChange list \<Rightarrow> 'd QuerySnapshot" where
  "snapshot ds cs = \<lparr> docs = ds, changes = cs \<rparr>"

text \<open>
  The run of the spec's scenario: three documents added at 0, 1 and 2; the second removed
  from index 1; the first moved from index 0 to index 1.
\<close>

definition scenario :: "'d \<Rightarrow> 'd \<Rightarrow> 'd \<Rightarrow> 'd QuerySnapshot list" where
  "scenario A B C =
     [snapshot [A, B, C] [change added A (-1) 0, change added B (-1) 1, change added C (-1) 2],
      snapshot [A, C] [change removed B 1 (-1)],
      snapshot [C, A] [change modified A 0 1]]"

text \<open>A query that delivers one document and then its removal.\<close>

definition added_then_removed :: "string Query" where
  "added_then_removed =
     Observable [snapshot [''A''] [change added ''A'' (-1) 0],
                 snapshot [] [change removed ''A'' 0 (-1)]] Pending"

text \<open>Documents with data, and a query whose only notification adds one document.\<close>

definition doc1 :: QueryDocumentSnapshot where
  "doc1 = \<lparr> doc_id = ''doc1'', data = [''name'' \<mapsto> JString ''x''] \<rparr>"

definition doc2 :: QueryDocumentSnapshot where
  "doc2 = \<lparr> doc_id = ''doc2'',
            data = [''id'' \<mapsto> JString ''own'', ''name'' \<mapsto> JString ''y''] \<rparr>"

definition one_result :: "QueryDocumentSnapshot \<Rightarrow> QueryDocumentSnapshot Query" where
  "one_result d = Observable [snapshot [d] [change added d (-1) 0]] Pending"

section \<open>Properties\<close>

subsection \<open>Auxiliary facts\<close>

lemma indexOf_ge: "indexOf xs x \<ge> -1"
  by (induction xs) auto

lemma indexOf_mem: "indexOf xs x > -1 \<longleftrightarrow> x \<in> set xs"
proof (induction xs)
  case Nil
  show ?case by simp
next
  case (Cons y ys)
  have "indexOf ys x \<ge> -1" by (rule indexOf_ge)
  with Cons show ?case by auto
qed

lemma stateChanges_default:
  "events = None \<or> events = Some [] \<Longrightarrow> stateChanges events query = docChanges query"
  by (auto simp: stateChanges_def keepUnstableUntilFirst_def)

lemma emissions_docChanges:
  "emissions (docChanges query) = map (\<lambda>snap. map toAction (changes snap)) (emissions query)"
  by (simp add: docChanges_def map_op_def)

lemma ending_docChanges: "ending (docChanges query) = ending query"
  by (simp add: docChanges_def map_op_def)

lemma stateChanges_filtered:
  assumes "evs \<noteq> []"
  shows "stateChanges (Some evs) query =
           Observable (filter (\<lambda>batch. batch \<noteq> [])
                         (map (filter (\<lambda>a. type a \<in> set evs)) (emissions (docChanges query))))
                      (ending query)"
  using assms
  by (simp add: stateChanges_def keepUnstableUntilFirst_def filter_op_def map_op_def
      indexOf_mem ending_docChanges)

lemma length_scan_values: "length (scan_values f acc xs) = length xs"
  by (induction xs arbitrary: acc) simp_all

lemma scan_values_append_nth:
  "k < length xs \<Longrightarrow>
     scan_values (\<lambda>current action. current @ action) acc xs ! k = acc @ concat (take (Suc k) xs)"
proof (induction xs arbitrary: acc k)
  case Nil
  then show ?case by simp
next
  case (Cons x xs)
  show ?case
  proof (cases k)
    case 0
    then show ?thesis by simp
  next
    case (Suc m)
    with Cons.prems have "m < length xs" by simp
    from Cons.IH [OF this, of "acc @ x"] Suc show ?thesis by simp
  qed
qed

lemma auditTrail_nth:
  assumes "k < length (emissions (stateChanges events query))"
  shows "emissions (auditTrail events query) ! k =
           concat (take (Suc k) (emissions (stateChanges events query)))"
  using scan_values_append_nth [OF assms, of "[]"]
  by (simp add: auditTrail_def scan_op_def)

lemma length_auditTrail:
  "length (emissions (auditTrail events query)) = length (emissions (stateChanges events query))"
  by (simp add: auditTrail_def scan_op_def length_scan_values)

subsection \<open>The raw-deltas view\<close>

text \<open>
  C9. When the \<^verbatim>\<open>events\<close> argument of \<^verbatim>\<open>stateChanges\<close> is absent or empty, the returned
  stream is the \<^verbatim>\<open>docChanges\<close> stream itself: one emission per notification, the batch
  of its change records unchanged, also when that batch is empty. Neither the per-record
  filter nor the guard on the length is on this branch.
\<close>

theorem stateChanges_default_forwards_every_batch:
  "stateChanges None query = docChanges query
   \<and> stateChanges (Some []) query = docChanges query
   \<and> emissions (stateChanges None query)
       = map (\<lambda>snap. map toAction (changes snap)) (emissions query)
   \<and> emissions (stateChanges (Some []) query)
       = map (\<lambda>snap. map toAction (changes snap)) (emissions query)"
  by (simp add: stateChanges_default emissions_docChanges)

text \<open>
  C4. \<^verbatim>\<open>stateChanges(['added'])\<close> emits, batch by batch, the records of \<^verbatim>\<open>stateChanges()\<close>
  whose type is \<^verbatim>\<open>added\<close>; the only batches of the unfiltered view with no counterpart are
  those the filter empties. Both streams end the same way.
\<close>

theorem stateChanges_added_filtering_law:
  "emissions (stateChanges (Some [added]) query)
     = filter (\<lambda>batch. batch \<noteq> [])
         (map (filter (\<lambda>a. type a = added)) (emissions (stateChanges None query)))
   \<and> ending (stateChanges (Some [added]) query) = ending (stateChanges None query)"
  by (simp add: stateChanges_filtered stateChanges_default ending_docChanges)

text \<open>
  C2, as stated, fails: with no \<^verbatim>\<open>events\<close> argument a notification without changes is
  emitted as an empty batch.
\<close>

theorem stateChanges_default_emits_empty_batch:
  "[] \<in> set (emissions (stateChanges None (Observable [snapshot ([] :: string list) []] Pending)))"
  by (simp add: stateChanges_default emissions_docChanges snapshot_def)

text \<open>
  C2, amended. For every non-empty \<^verbatim>\<open>events\<close> array, \<^verbatim>\<open>stateChanges\<close> emits the batches
  of the notifications filtered to the requested types, leaving out every batch that the
  filter empties; it never emits an empty batch.
\<close>

theorem stateChanges_nonempty_events_no_empty_batch:
  assumes "evs \<noteq> []"
  shows "emissions (stateChanges (Some evs) query)
           = filter (\<lambda>batch. batch \<noteq> [])
               (map (\<lambda>snap. filter (\<lambda>a. type a \<in> set evs) (map toAction (changes snap)))
                  (emissions query))
         \<and> [] \<notin> set (emissions (stateChanges (Some evs) query))"
  using assms by (simp add: stateChanges_filtered emissions_docChanges comp_def)

theorem stateChanges_nonempty_events_witness:
  "[added] \<noteq> []
   \<and> emissions (stateChanges (Some [added]) added_then_removed)
      = [[toAction (change added ''A'' (-1) 0)]]
   \<and> [] \<notin> set (emissions (stateChanges (Some [added]) added_then_removed))"
  using stateChanges_nonempty_events_no_empty_batch [of "[added]" added_then_removed]
  by (simp add: added_then_removed_def snapshot_def change_def toAction_def)

subsection \<open>The audit log\<close>

text \<open>
  C3. For every \<^verbatim>\<open>events\<close> argument, \<^verbatim>\<open>auditTrail\<close> emits once per emission of
  \<^verbatim>\<open>stateChanges\<close>; its emission number \<open>k\<close> (counted from 0) is the concatenation of the
  first \<open>k + 1\<close> batches, so its length is the sum of their sizes, and every earlier
  emission is a prefix of it.
\<close>

theorem auditTrail_cumulative:
  assumes "k < length (emissions (stateChanges events query))" and "j \<le> k"
  shows "length (emissions (auditTrail events query))
           = length (emissions (stateChanges events query))
         \<and> emissions (auditTrail events query) ! k
             = concat (take (Suc k) (emissions (stateChanges events query)))
         \<and> length (emissions (auditTrail events query) ! k)
             = sum_list (map length (take (Suc k) (emissions (stateChanges events query))))
         \<and> prefix (emissions (auditTrail events query) ! j)
                  (emissions (auditTrail events query) ! k)"
proof -
  let ?raw = "emissions (stateChanges events query)"
  from assms have j: "j < length ?raw" by simp
  have "take (Suc k) ?raw = take (Suc j) ?raw @ drop (Suc j) (take (Suc k) ?raw)"
    using assms(2) by (metis Suc_le_mono append_take_drop_id min.absorb1 take_take)
  then have "prefix (concat (take (Suc j) ?raw)) (concat (take (Suc k) ?raw))"
    by (metis concat_append prefixI)
  then show ?thesis
    by (simp add: length_auditTrail auditTrail_nth [OF assms(1)] auditTrail_nth [OF j]
        length_concat)
qed

theorem auditTrail_cumulative_witness:
  "(1::nat) < length (emissions (stateChanges None added_then_removed))
   \<and> (0::nat) \<le> 1
   \<and> length (emissions (auditTrail None added_then_removed)) = 2
   \<and> emissions (auditTrail None added_then_removed) ! 1
       = [toAction (change added ''A'' (-1) 0), toAction (change removed ''A'' 0 (-1))]
   \<and> length (emissions (auditTrail None added_then_removed) ! 1) = 2
   \<and> prefix (emissions (auditTrail None added_then_removed) ! 0)
             (emissions (auditTrail None added_then_removed) ! 1)"
proof -
  have raw: "emissions (stateChanges None added_then_removed)
      = [[toAction (change added ''A'' (-1) 0)], [toAction (change removed ''A'' 0 (-1))]]"
    by (simp add: stateChanges_default emissions_docChanges snapshot_def
        added_then_removed_def)
  have k: "(1::nat) < length (emissions (stateChanges None added_then_removed))"
    by (simp add: raw)
  have j: "(0::nat) \<le> 1" by simp
  have "take (Suc 1) (emissions (stateChanges None added_then_removed))
      = emissions (stateChanges None added_then_removed)"
    by (simp add: raw)
  with auditTrail_cumulative [OF k j] k raw show ?thesis
    by auto
qed

subsection \<open>The ordered snapshot\<close>

text \<open>Deleting and inserting a slot, read by positions.\<close>

lemma length_deleteSlot: "i < length xs \<Longrightarrow> length (deleteSlot i xs) = length xs - 1"
  by (simp add: deleteSlot_def)

lemma length_insertSlot: "length (insertSlot i x xs) = Suc (length xs)"
  by (simp add: insertSlot_def)

lemma nth_deleteSlot:
  "i < length xs \<Longrightarrow> k < length xs - 1 \<Longrightarrow> deleteSlot i xs ! k = xs ! skip i k"
  by (auto simp: deleteSlot_def skip_def nth_append min_def)

lemma nth_insertSlot_at: "j \<le> length xs \<Longrightarrow> insertSlot j x xs ! j = x"
  by (simp add: insertSlot_def nth_append)

lemma nth_insertSlot_skip:
  "j \<le> length xs \<Longrightarrow> k < length xs \<Longrightarrow> insertSlot j x xs ! skip j k = xs ! k"
  by (auto simp: insertSlot_def skip_def nth_append nth_Cons' min_def)

lemma skip_preimage:
  assumes "m \<noteq> j" and "m < Suc n" and "j \<le> n"
  shows "\<exists>k. k < n \<and> m = skip j k"
proof (cases "m < j")
  case True
  with assms have "m < n" "m = skip j m" by (simp_all add: skip_def)
  then show ?thesis by blast
next
  case False
  with assms have "m - 1 < n" "m = skip j (m - 1)" by (simp_all add: skip_def)
  then show ?thesis by blast
qed

lemma deleted_unique:
  assumes "i < length xs" and "Suc (length ys) = length xs"
    and "\<forall>k \<in> set [0..<length ys]. ys ! k = xs ! skip i k"
  shows "ys = deleteSlot i xs"
proof (rule nth_equalityI)
  show "length ys = length (deleteSlot i xs)"
    using assms by (simp add: length_deleteSlot)
next
  fix k assume "k < length ys"
  with assms show "ys ! k = deleteSlot i xs ! k"
    by (simp add: nth_deleteSlot)
qed

lemma inserted_unique:
  assumes "j \<le> length xs" and "length ys = Suc (length xs)" and "ys ! j = d"
    and "\<forall>k \<in> set [0..<length xs]. ys ! skip j k = xs ! k"
  shows "ys = insertSlot j d xs"
proof (rule nth_equalityI)
  show "length ys = length (insertSlot j d xs)"
    using assms by (simp add: length_insertSlot)
next
  fix m assume m: "m < length ys"
  show "ys ! m = insertSlot j d xs ! m"
  proof (cases "m = j")
    case True
    with assms show ?thesis by (simp add: nth_insertSlot_at)
  next
    case False
    from m assms(2) have "m < Suc (length xs)" by simp
    from skip_preimage [OF False this assms(1)]
    obtain k where k: "k < length xs" "m = skip j k" by blast
    with assms show ?thesis by (simp add: nth_insertSlot_skip)
  qed
qed

lemma map_deleteSlot: "map f (deleteSlot i xs) = deleteSlot i (map f xs)"
  by (simp add: deleteSlot_def take_map drop_map)

lemma map_insertSlot: "map f (insertSlot i x xs) = insertSlot i (f x) (map f xs)"
  by (simp add: insertSlot_def take_map drop_map)

lemma insert_deleted_same: "i < length xs \<Longrightarrow> insertSlot i x (deleteSlot i xs) = xs[i := x]"
  by (simp add: insertSlot_def deleteSlot_def upd_conv_take_nth_drop min_def)

text \<open>
  The reconstructor follows the store: a change the store declares is applied without error
  and leads to the list the store declares, for one change, a batch and a run.
\<close>

lemma combineChange_follows_store:
  assumes "store_change (map doc combined) c after"
  shows "\<exists>combined'. combineChange combined c = Inr combined' \<and> map doc combined' = after"
proof (cases "change_type c")
  case added
  let ?j = "nat (newIndex c)"
  from assms added have b: "0 \<le> newIndex c" "?j \<le> length combined"
      "length after = Suc (length (map doc combined))" "after ! ?j = doc c"
    and pos: "\<forall>k \<in> set [0..<length (map doc combined)]. after ! skip ?j k = map doc combined ! k"
    by (simp_all add: store_change_def)
  from b have "?j \<le> length (map doc combined)" by simp
  from inserted_unique [OF this b(3) b(4) pos]
  have "after = map doc (insertSlot ?j c combined)" by (simp add: map_insertSlot)
  moreover from b have "newIndex c \<le> int (length combined)" by linarith
  ultimately show ?thesis using added b by (simp add: combineChange_def)
next
  case removed
  let ?i = "nat (oldIndex c)"
  from assms removed have b: "0 \<le> oldIndex c" "?i < length combined"
      "Suc (length after) = length (map doc combined)"
    and pos: "\<forall>k \<in> set [0..<length after]. after ! k = map doc combined ! skip ?i k"
    by (simp_all add: store_change_def)
  from b have "?i < length (map doc combined)" by simp
  from deleted_unique [OF this b(3) pos]
  have "after = map doc (deleteSlot ?i combined)" by (simp add: map_deleteSlot)
  moreover from b have "oldIndex c < int (length combined)" by linarith
  ultimately show ?thesis using removed b by (simp add: combineChange_def)
next
  case modified
  let ?i = "nat (oldIndex c)" and ?j = "nat (newIndex c)"
  let ?xs = "map doc combined"
  from assms modified have b: "0 \<le> oldIndex c" "?i < length combined"
      "0 \<le> newIndex c" "?j < length combined" "length after = length combined"
      "after ! ?j = doc c"
    and pos: "\<forall>k \<in> set [0..<length combined - 1]. after ! skip ?j k = ?xs ! skip ?i k"
    by (simp_all add: store_change_def)
  have "after = insertSlot ?j (doc c) (deleteSlot ?i ?xs)"
  proof (rule inserted_unique)
    show "?j \<le> length (deleteSlot ?i ?xs)" using b by (simp add: length_deleteSlot)
    show "length after = Suc (length (deleteSlot ?i ?xs))" using b by (simp add: length_deleteSlot)
    show "after ! ?j = doc c" by (rule b)
    show "\<forall>k \<in> set [0..<length (deleteSlot ?i ?xs)]. after ! skip ?j k = deleteSlot ?i ?xs ! k"
      using b pos by (simp add: length_deleteSlot nth_deleteSlot)
  qed
  then have after: "after = map doc (insertSlot ?j c (deleteSlot ?i combined))"
    by (simp add: map_insertSlot map_deleteSlot)
  from b have bi: "oldIndex c < int (length combined)" "newIndex c < int (length combined)"
    by linarith+
  show ?thesis
  proof (cases "oldIndex c = newIndex c")
    case True
    with b after have "after = map doc (combined[?j := c])"
      by (simp add: insert_deleted_same)
    with b bi modified True show ?thesis by (simp add: combineChange_def)
  next
    case False
    with b bi modified after show ?thesis by (simp add: combineChange_def)
  qed
qed

lemma combineChanges_follows_store:
  assumes "store_batch before cs after" and "map doc cur = before"
    and "\<forall>c \<in> set cs. change_type c \<in> set events"
  shows "\<exists>cur'. combineChanges cur cs events = Inr cur' \<and> map doc cur' = after"
  using assms
proof (induction arbitrary: cur rule: store_batch.induct)
  case (batch_done xs)
  then show ?case by simp
next
  case (batch_step xs c ys cs zs)
  from batch_step.hyps(1) batch_step.prems(1)
  have "store_change (map doc cur) c ys" by simp
  from combineChange_follows_store [OF this]
  obtain mid where mid: "combineChange cur c = Inr mid" "map doc mid = ys" by blast
  from batch_step.IH [OF mid(2)] batch_step.prems(2)
  obtain cur' where "combineChanges mid cs events = Inr cur'" "map doc cur' = zs"
    by auto
  with mid batch_step.prems(2) show ?case by (simp add: indexOf_mem)
qed

lemma documents_toAction: "documents (map toAction cs) = map doc cs"
  by (simp add: documents_def toAction_def comp_def)

lemma scanChanges_follows_store:
  assumes "store_run previous snaps" and "map doc cur = previous"
    and "\<forall>snap \<in> set snaps. \<forall>c \<in> set (changes snap). change_type c \<in> set events"
  shows "map documents (emissions (scanChanges events cur snaps e)) = map docs snaps
         \<and> ending (scanChanges events cur snaps e) = e"
  using assms
proof (induction snaps arbitrary: previous cur)
  case Nil
  then show ?case by simp
next
  case (Cons snap snaps)
  from Cons.prems have batch: "store_batch previous (changes snap) (docs snap)"
    and run: "store_run (docs snap) snaps" by simp_all
  from Cons.prems(3) have pass: "\<forall>c \<in> set (changes snap). change_type c \<in> set events"
    and rest: "\<forall>s \<in> set snaps. \<forall>c \<in> set (changes s). change_type c \<in> set events"
    by simp_all
  from combineChanges_follows_store [OF batch Cons.prems(2) pass]
  obtain cur' where c: "combineChanges cur (changes snap) events = Inr cur'"
    "map doc cur' = docs snap" by blast
  from Cons.IH [OF run c(2) rest] c show ?case
    by (simp add: documents_toAction)
qed

lemma snapshotChanges_scan:
  "snapshotChanges events query
     = scanChanges (validateEventsArray events) [] (emissions query) (ending query)"
  by (simp add: snapshotChanges_def sortedChanges_def keepUnstableUntilFirst_def)

lemma scenario_emissions:
  "{added, removed, modified} \<subseteq> set events \<Longrightarrow>
   map documents (emissions (scanChanges events [] (scenario A B C) e))
     = [[A, B, C], [A, C], [C, A]]"
  by (simp add: scenario_def snapshot_def change_def combineChange_def insertSlot_def
      deleteSlot_def indexOf_mem documents_def toAction_def)

lemma docs_scenario: "map docs (scenario A B C) = [[A, B, C], [A, C], [C, A]]"
  by (simp add: scenario_def snapshot_def)

lemma store_run_scenario: "store_run [] (scenario ''A'' ''B'' ''C'')"
proof -
  have 1: "store_batch [] [change added ''A'' (-1) 0, change added ''B'' (-1) 1,
      change added ''C'' (-1) 2] [''A'', ''B'', ''C'']"
    by (rule batch_step [where ys = "[''A'']"], simp add: store_change_def change_def skip_def,
        rule batch_step [where ys = "[''A'', ''B'']"], simp add: store_change_def change_def skip_def,
        rule batch_step [where ys = "[''A'', ''B'', ''C'']"],
        simp add: store_change_def change_def skip_def upt_rec, rule batch_done)
  have 2: "store_batch [''A'', ''B'', ''C''] [change removed ''B'' 1 (-1)] [''A'', ''C'']"
    by (rule batch_step [where ys = "[''A'', ''C'']"],
        simp add: store_change_def change_def skip_def upt_rec, rule batch_done)
  have 3: "store_batch [''A'', ''C''] [change modified ''A'' 0 1] [''C'', ''A'']"
    by (rule batch_step [where ys = "[''C'', ''A'']"],
        simp add: store_change_def change_def skip_def upt_rec, rule batch_done)
  from 1 2 3 show ?thesis by (simp add: scenario_def snapshot_def)
qed

text \<open>
  C1, as stated, fails: with \<^verbatim>\<open>events = ['added']\<close> the removal and the move of the
  scenario are passed over, and the view keeps emitting the first list while the store's
  match list changes.
\<close>

theorem snapshotChanges_added_only_diverges:
  "store_run [] (scenario ''A'' ''B'' ''C'')
   \<and> map documents (emissions (snapshotChanges (Some [added])
         (Observable (scenario ''A'' ''B'' ''C'') Pending)))
       = [[''A'', ''B'', ''C''], [''A'', ''B'', ''C''], [''A'', ''B'', ''C'']]
   \<and> map docs (scenario ''A'' ''B'' ''C'') = [[''A'', ''B'', ''C''], [''A'', ''C''], [''C'', ''A'']]
   \<and> map documents (emissions (snapshotChanges (Some [added])
         (Observable (scenario ''A'' ''B'' ''C'') Pending)))
       \<noteq> map docs (scenario ''A'' ''B'' ''C'')"
proof -
  have "map documents (emissions (snapshotChanges (Some [added])
         (Observable (scenario ''A'' ''B'' ''C'') Pending)))
       = [[''A'', ''B'', ''C''], [''A'', ''B'', ''C''], [''A'', ''B'', ''C'']]"
    by (simp add: snapshotChanges_scan validateEventsArray_def scenario_def
        snapshot_def change_def combineChange_def insertSlot_def deleteSlot_def
        documents_def toAction_def)
  then show ?thesis
    by (simp add: store_run_scenario docs_scenario)
qed

text \<open>
  C1, amended. For every run of notifications that is consistent with the store's contract
  and none of whose changes is excluded by the \<^verbatim>\<open>events\<close> argument (none is when the
  argument is absent, empty or lists all three types), \<^verbatim>\<open>snapshotChanges\<close> emits once
  per notification, the documents of emission \<open>i\<close> are the match list of notification
  \<open>i\<close> in the store's order, and the stream ends as the query's does. For the run of the
  scenario it emits \<open>[A, B, C]\<close>, then \<open>[A, C]\<close>, then \<open>[C, A]\<close>.
\<close>

theorem snapshotChanges_matches_store:
  assumes "store_run [] snaps"
    and "\<forall>snap \<in> set snaps. \<forall>c \<in> set (changes snap).
           change_type c \<in> set (validateEventsArray events)"
  shows "map documents (emissions (snapshotChanges events (Observable snaps e))) = map docs snaps
         \<and> ending (snapshotChanges events (Observable snaps e)) = e
         \<and> map documents (emissions (snapshotChanges None (Observable (scenario A B C) e)))
             = [[A, B, C], [A, C], [C, A]]"
proof -
  have "map doc [] = ([] :: 'a list)" by simp
  from scanChanges_follows_store [OF assms(1) this assms(2)]
  show ?thesis
    by (simp add: snapshotChanges_scan scenario_emissions validateEventsArray_def)
qed

theorem snapshotChanges_matches_store_witness:
  "store_run [] (scenario ''A'' ''B'' ''C'')
   \<and> map documents (emissions (snapshotChanges None
         (Observable (scenario ''A'' ''B'' ''C'') Pending)))
       = [[''A'', ''B'', ''C''], [''A'', ''C''], [''C'', ''A'']]
   \<and> ending (snapshotChanges None (Observable (scenario ''A'' ''B'' ''C'') Pending)) = Pending"
proof -
  have pass: "\<forall>snap \<in> set (scenario ''A'' ''B'' ''C''). \<forall>c \<in> set (changes snap).
      change_type c \<in> set (validateEventsArray None)"
    by (simp add: validateEventsArray_def scenario_def snapshot_def change_def)
  from snapshotChanges_matches_store [OF store_run_scenario pass,
      where e = Pending and A = "''A''" and B = "''B''" and C = "''C''"]
  show ?thesis
    by (simp add: store_run_scenario docs_scenario)
qed

subsection \<open>The default filter\<close>

lemma combineChanges_cong:
  "set events = set events' \<Longrightarrow>
   combineChanges cur cs events = combineChanges cur cs events'"
proof (induction cs arbitrary: cur)
  case Nil
  show ?case by simp
next
  case (Cons c cs)
  then show ?case by (simp add: indexOf_mem split: sum.splits)
qed

lemma scanChanges_cong:
  "set events = set events' \<Longrightarrow>
   scanChanges events cur snaps e = scanChanges events' cur snaps e"
proof (induction snaps arbitrary: cur)
  case Nil
  show ?case by simp
next
  case (Cons snap snaps)
  from Cons.prems have "combineChanges cur (changes snap) events
      = combineChanges cur (changes snap) events'"
    by (rule combineChanges_cong)
  with Cons show ?case by (simp split: sum.splits)
qed

lemma all_types: "(t :: DocumentChangeType) \<in> {added, removed, modified}"
  by (cases t) simp_all

lemma filter_full:
  assumes "set full = {added, removed, modified}"
  shows "map (filter (\<lambda>a. type a \<in> set full)) (batches :: 'd DocumentChangeAction list list)
           = batches"
proof -
  have "filter (\<lambda>a. type a \<in> set full) batch = batch"
    for batch :: "'d DocumentChangeAction list"
    using assms all_types by simp
  then show ?thesis by (simp add: map_idI)
qed

text \<open>
  C5, as stated, fails for \<^verbatim>\<open>stateChanges\<close>: a notification without changes is emitted
  as an empty batch when \<^verbatim>\<open>events\<close> is absent, and is suppressed under the full filter.
\<close>

theorem default_events_differ_on_empty_batch:
  "stateChanges None (Observable [snapshot ([] :: string list) []] Pending)
     \<noteq> stateChanges (Some [added, modified, removed])
           (Observable [snapshot ([] :: string list) []] Pending)"
  by (simp add: stateChanges_default stateChanges_filtered docChanges_def map_op_def
      snapshot_def)

text \<open>
  C5, amended. For \<^verbatim>\<open>snapshotChanges\<close> an absent or empty \<^verbatim>\<open>events\<close> argument behaves
  as any list of all three types. For \<^verbatim>\<open>stateChanges\<close> and \<^verbatim>\<open>auditTrail\<close> an absent and
  an empty argument behave alike; under the full filter \<^verbatim>\<open>stateChanges\<close> emits the same
  batches but for the empty ones, so that all three views agree with the full filter on
  every query none of whose notifications has an empty batch of changes.
\<close>

theorem default_events_are_full_filter:
  assumes "set full = {added, removed, modified}"
  shows "snapshotChanges None query = snapshotChanges (Some full) query
         \<and> snapshotChanges (Some []) query = snapshotChanges (Some full) query
         \<and> stateChanges (Some []) query = stateChanges None query
         \<and> auditTrail (Some []) query = auditTrail None query
         \<and> emissions (stateChanges (Some full) query)
             = filter (\<lambda>batch. batch \<noteq> []) (emissions (stateChanges None query))
         \<and> ([] \<notin> set (map changes (emissions query)) \<longrightarrow>
               stateChanges None query = stateChanges (Some full) query
               \<and> auditTrail None query = auditTrail (Some full) query)"
proof -
  from assms have ne: "full \<noteq> []" by auto
  from assms ne have v: "set [added, removed, modified] = set (validateEventsArray (Some full))"
    by (auto simp: validateEventsArray_def)
  have d: "validateEventsArray None = [added, removed, modified]"
    "validateEventsArray (Some []) = [added, removed, modified]"
    by (simp_all add: validateEventsArray_def)
  have snap: "snapshotChanges None query = snapshotChanges (Some full) query"
    "snapshotChanges (Some []) query = snapshotChanges (Some full) query"
    unfolding snapshotChanges_scan d by (rule scanChanges_cong [OF v])+
  have full: "stateChanges (Some full) query
      = Observable (filter (\<lambda>batch. batch \<noteq> []) (emissions (docChanges query)))
          (ending (docChanges query))"
    by (simp add: stateChanges_filtered [OF ne] filter_full [OF assms] ending_docChanges)
  have same: "stateChanges (Some []) query = stateChanges None query"
    "auditTrail (Some []) query = auditTrail None query"
    "emissions (stateChanges (Some full) query)
       = filter (\<lambda>batch. batch \<noteq> []) (emissions (stateChanges None query))"
    by (simp_all add: full stateChanges_default auditTrail_def)
  have "stateChanges None query = stateChanges (Some full) query
      \<and> auditTrail None query = auditTrail (Some full) query"
    if "[] \<notin> set (map changes (emissions query))"
  proof -
    from that have "\<forall>snap \<in> set (emissions query). changes snap \<noteq> []"
      by force
    then have "filter (\<lambda>batch. batch \<noteq> []) (emissions (docChanges query))
        = emissions (docChanges query)"
      by (simp add: emissions_docChanges filter_id_conv)
    then have "stateChanges (Some full) query = docChanges query"
      by (simp add: full)
    then have "stateChanges None query = stateChanges (Some full) query"
      by (simp add: stateChanges_default)
    then show ?thesis by (simp add: auditTrail_def)
  qed
  with snap same show ?thesis by blast
qed

theorem default_events_are_full_filter_witness:
  "set [added, removed, modified] = {added, removed, modified}
   \<and> [] \<notin> set (map changes (emissions (one_result doc1)))
   \<and> snapshotChanges None (one_result doc1)
       = snapshotChanges (Some [added, removed, modified]) (one_result doc1)
   \<and> stateChanges None (one_result doc1)
       = stateChanges (Some [added, removed, modified]) (one_result doc1)
   \<and> auditTrail None (one_result doc1)
       = auditTrail (Some [added, removed, modified]) (one_result doc1)"
proof -
  have 1: "set [added, removed, modified] = {added, removed, modified}" by simp
  have 2: "[] \<notin> set (map changes (emissions (one_result doc1)))"
    by (simp add: one_result_def snapshot_def)
  from default_events_are_full_filter [OF 1, of "one_result doc1"] 1 2 show ?thesis by blast
qed

subsection \<open>The value view\<close>

lemma emissions_valueChanges:
  "emissions (valueChanges options query)
     = map (\<lambda>snap. map (\<lambda>a. if truthy (idField options)
                               then data a ++ [the (idField options) \<mapsto> JString (doc_id a)]
                               else data a) (docs snap)) (emissions query)"
  by (simp add: valueChanges_def keepUnstableUntilFirst_def map_op_def fromCollectionRef_def
      comp_def)

text \<open>
  C6, as stated, fails: an \<^verbatim>\<open>idField\<close> option that is the empty string fails the test
  \<^verbatim>\<open>if (options.idField)\<close>, and the plain data is emitted with no identifier merged.
\<close>

theorem valueChanges_empty_idField_not_merged:
  "emissions (valueChanges \<lparr> idField = Some [] \<rparr> (one_result doc1))
     = [[[''name'' \<mapsto> JString ''x'']]]
   \<and> (emissions (valueChanges \<lparr> idField = Some [] \<rparr> (one_result doc1)) ! 0 ! 0) [] = None"
  by (simp add: emissions_valueChanges truthy_def one_result_def snapshot_def doc1_def)

text \<open>
  C6, amended. For every notification, \<^verbatim>\<open>valueChanges\<close> with a non-empty \<^verbatim>\<open>idField\<close>
  emits the list of the documents' data, each with the document's identifier set under that
  field, and without the option the plain data; \<^verbatim>\<open>valueChanges({idField: 'id'})\<close> on the
  result list \<^verbatim>\<open>[{name:'x'}]\<close> with identifier \<^verbatim>\<open>doc1\<close> emits
  \<^verbatim>\<open>[{name:'x', id:'doc1'}]\<close>.
\<close>

theorem valueChanges_merges_id:
  assumes "idField options = Some field" and "field \<noteq> []"
  shows "emissions (valueChanges options query)
           = map (\<lambda>snap. map (\<lambda>a. (data a)(field \<mapsto> JString (doc_id a))) (docs snap))
               (emissions query)
         \<and> emissions (valueChanges noOptions query)
           = map (\<lambda>snap. map data (docs snap)) (emissions query)
         \<and> emissions (valueChanges \<lparr> idField = Some ''id'' \<rparr>
                (Observable [snapshot [\<lparr> doc_id = ''doc1'', data = [''name'' \<mapsto> JString ''x''] \<rparr>]
                    cs] e))
           = [[[''name'' \<mapsto> JString ''x'', ''id'' \<mapsto> JString ''doc1'']]]"
  using assms
  by (simp add: emissions_valueChanges truthy_def noOptions_def snapshot_def)

theorem valueChanges_merges_id_witness:
  "idField \<lparr> idField = Some ''uid'' \<rparr> = Some ''uid'' \<and> ''uid'' \<noteq> []
   \<and> emissions (valueChanges \<lparr> idField = Some ''uid'' \<rparr> (one_result doc1))
       = [[[''name'' \<mapsto> JString ''x'', ''uid'' \<mapsto> JString ''doc1'']]]
   \<and> emissions (valueChanges noOptions (one_result doc1)) = [[[''name'' \<mapsto> JString ''x'']]]"
  using valueChanges_merges_id [of "\<lparr> idField = Some ''uid'' \<rparr>" "''uid''" "one_result doc1"]
  by (simp add: one_result_def snapshot_def doc1_def)

text \<open>
  C10. In \<^verbatim>\<open>valueChanges({idField})\<close>, when a document's data has a field whose name is
  \<^verbatim>\<open>idField\<close>, the emitted object's value at that field is the document's identifier, not
  the data's own value: the spread sets the identifier after the data's fields. The field
  names of a document of the store are never empty, which is the hypothesis on the empty
  name; a field of the data named \<^verbatim>\<open>idField\<close> then makes \<^verbatim>\<open>idField\<close> non-empty, and the
  test \<^verbatim>\<open>if (options.idField)\<close> passes.
\<close>

theorem valueChanges_id_overwrites:
  assumes "idField options = Some field"
    and "i < length (emissions query)" and "k < length (docs (emissions query ! i))"
    and "data (docs (emissions query ! i) ! k) [] = None"
    and "data (docs (emissions query ! i) ! k) field = Some own"
  shows "(emissions (valueChanges options query) ! i ! k) field
           = Some (JString (doc_id (docs (emissions query ! i) ! k)))"
proof -
  from assms(4) assms(5) have "field \<noteq> []" by auto
  with assms(1) have "truthy (idField options)" by (simp add: truthy_def)
  with assms(1) assms(2) assms(3) show ?thesis
    by (simp add: emissions_valueChanges)
qed

theorem valueChanges_id_overwrites_witness:
  "idField \<lparr> idField = Some ''id'' \<rparr> = Some ''id''
   \<and> (0::nat) < length (emissions (one_result doc2))
   \<and> (0::nat) < length (docs (emissions (one_result doc2) ! 0))
   \<and> data (docs (emissions (one_result doc2) ! 0) ! 0) [] = None
   \<and> data (docs (emissions (one_result doc2) ! 0) ! 0) ''id'' = Some (JString ''own'')
   \<and> (emissions (valueChanges \<lparr> idField = Some ''id'' \<rparr> (one_result doc2)) ! 0 ! 0) ''id''
       = Some (JString ''doc2'')"
  using valueChanges_id_overwrites [of "\<lparr> idField = Some ''id'' \<rparr>" "''id''" 0
      "one_result doc2" 0 "JString ''own''"]
  by (simp add: one_result_def snapshot_def doc2_def)

subsection \<open>The one-shot read\<close>

text \<open>
  C8. When the store's fetch fails, \<^verbatim>\<open>get\<close> ends with the store's error and has emitted
  no value before it.
\<close>

theorem get_rejects_without_value:
  assumes "query_get options = Rejected err"
  shows "emissions (get query_get options) = [] \<and> ending (get query_get options) = Failed err"
  using assms by (simp add: get_def observeOn_def from_promise_def)

theorem get_rejects_without_value_witness:
  "(\<lambda>_ :: unit. Rejected (StoreTransportError ''unavailable'') :: string list promise) ()
      = Rejected (StoreTransportError ''unavailable'')
   \<and> emissions (get (\<lambda>_ :: unit. Rejected (StoreTransportError ''unavailable'')
                        :: string list promise) ()) = []
   \<and> ending (get (\<lambda>_ :: unit. Rejected (StoreTransportError ''unavailable'')
                        :: string list promise) ())
       = Failed (StoreTransportError ''unavailable'')"
  using get_rejects_without_value
    [of "\<lambda>_ :: unit. Rejected (StoreTransportError ''unavailable'') :: string list promise"
        "()" "StoreTransportError ''unavailable''"]
  by simp

end
